theory Spec2Isabelle
  imports Complex_Main "HOL-Library.AList"
begin

section \<open>Data model\<close>

text \<open>
  A Python \<^verbatim>\<open>dict\<close> keeps its items in insertion order, and the key normalizer's
  results depend on that order (which collision is met first, in which order the
  colliding values reach the aggregator). A dict is therefore an association list:
  \<^item> \<^verbatim>\<open>d[k] = v\<close> is \<open>AList.update k v d\<close>: the value is replaced where the key
    already is, and the pair is appended at the end otherwise;
  \<^item> \<^verbatim>\<open>d.get(k)\<close> is \<open>map_of d k\<close>, \<^verbatim>\<open>k in d\<close> is \<open>k \<in> fst ` set d\<close>;
  \<^item> \<^verbatim>\<open>d.items()\<close> is the list itself.
  A list is the content of a Python dict when its keys are distinct.

  Numbers are exact: a price or an amount is a \<open>real\<close>, and \<^verbatim>\<open>1.0\<close> is \<open>1\<close>.
  The rounding of Python's binary floating point is not part of the model.
  Currency codes are strings of ASCII characters.
\<close>

type_synonym ('k, 'v) dict = "('k \<times> 'v) list"

type_synonym balance = "(string, real) dict"

type_synonym ticker = "(string, (string, real) dict) dict"

datatype error =
    ValueError string
  | KeyError string
  | NotImplementedError

definition well_formed :: "('k, 'v) dict \<Rightarrow> bool" where
  "well_formed d = distinct (map fst d)"

definition well_formed2 :: "('k, ('j, 'v) dict) dict \<Rightarrow> bool" where
  "well_formed2 d = (well_formed d \<and> list_all (\<lambda>(k, entry). well_formed entry) d)"

text \<open>\<^verbatim>\<open>d.get(k, 0)\<close>, and \<^verbatim>\<open>c[k]\<close> on a \<^verbatim>\<open>Counter\<close>, whose missing keys read as zero.\<close>

definition get0 :: "balance \<Rightarrow> string \<Rightarrow> real" where
  "get0 d k = (case map_of d k of None \<Rightarrow> 0 | Some v \<Rightarrow> v)"

text \<open>The edge \<^verbatim>\<open>d[a][b]\<close> of a two-level dict, when both keys are present.\<close>

definition edge :: "('k, ('j, 'v) dict) dict \<Rightarrow> 'k \<Rightarrow> 'j \<Rightarrow> 'v option" where
  "edge d a b = (case map_of d a of None \<Rightarrow> None | Some entry \<Rightarrow> map_of entry b)"

section \<open>src/utils.py: the alias table and the key normalizer\<close>

text \<open>\<^verbatim>\<open>str.upper()\<close> on ASCII: the letters a..z (codes 97..122) move down by 32.\<close>

definition upper_char :: "char \<Rightarrow> char" where
  "upper_char c =
     (let n = (of_char c :: nat) in if 97 \<le> n \<and> n \<le> 122 then char_of (n - 32) else c)"

definition upper :: "string \<Rightarrow> string" where
  "upper s = map upper_char s"

definition ALIASES :: "(string list \<times> string) list" where
  "ALIASES =
   [([''BCC'', ''BCH'', ''Bitcoin Cash (BCH)''], ''BCH''),
    ([''DASH'', ''DSH'', ''Dash (DASH)''], ''DASH''),
    ([''Bitcoin (BTC)'', ''BTC''], ''BTC''),
    ([''Ethereum (ETH)'', ''ETH''], ''ETH''),
    ([''Zcash (ZEC)'', ''ZEC''], ''ZEC''),
    ([''Monero (XMR)'', ''XMR''], ''XMR''),
    ([''Litecoin (LTC)'', ''LTC''], ''LTC''),
    ([''Ether Classic (ETC)'', ''ETC''], ''ETC''),
    ([''Namecoin (NMC)'', ''NMC''], ''NMC''),
    ([''Peercoin (PPC)'', ''PPC''], ''PPC''),
    ([''Ripple (XRP)'', ''XRP''], ''XRP''),
    ([''Dogecoin (DOGE)'', ''DOGE''], ''DOGE''),
    ([''RUR'', ''RUB''], ''RUB''),
    ([''Tether (USDT)'', ''USDT''], ''USDT''),
    ([''NEM (XEM)'', ''XEM''], ''XEM''),
    ([''Augur (REP)'', ''REP''], ''REP'')]"

text \<open>
  \<^verbatim>\<open>{src: trg for key, trg in ALIASES.items() for src in key}\<close>: the pairs are stored
  one after the other, a later one replacing an earlier one with the same key.
\<close>

definition ALIASES_FLATTENED :: "(string, string) dict" where
  "ALIASES_FLATTENED =
     fold (\<lambda>(src, trg). AList.update src trg)
       (concat (map (\<lambda>(key, trg). map (\<lambda>src. (src, trg)) key) ALIASES)) []"

text \<open>
  Python's \<^verbatim>\<open>x or y\<close> is \<open>x\<close> when \<open>x\<close> is truthy, else \<open>y\<close>. The result of
  \<^verbatim>\<open>dict.get\<close> is truthy when it is a string that is not empty.
\<close>

fun truthy :: "string option \<Rightarrow> bool" where
  "truthy None = False"
| "truthy (Some s) = (s \<noteq> [])"

definition normalized_key :: "string \<Rightarrow> string" where
  "normalized_key k =
     (let u = upper k in
      if truthy (map_of ALIASES_FLATTENED k) then the (map_of ALIASES_FLATTENED k)
      else if truthy (map_of ALIASES_FLATTENED u) then the (map_of ALIASES_FLATTENED u)
      else u)"

text \<open>The message of the \<^verbatim>\<open>ValueError\<close> raised on a collision; it quotes the key.\<close>

definition duplicate_message :: "string \<Rightarrow> string" where
  "duplicate_message key =
     ''Multiple values for normalized key '' @ [char_of (34 :: nat)] @ key @ [char_of (34 :: nat)]
       @ '' are found, but no aggregation is provided''"

text \<open>
  The loop of \<^verbatim>\<open>_normalize_keys_impl\<close> for \<^verbatim>\<open>agg is None\<close>, with the dict
  \<open>result\<close> built so far as second argument.
\<close>

fun normalize_raise :: "(string, 'v) dict \<Rightarrow> (string, 'v) dict \<Rightarrow> error + (string, 'v) dict" where
  "normalize_raise [] result = Inr result"
| "normalize_raise ((key, value) # items) result =
     (let key' = normalized_key key in
      if key' \<in> fst ` set result then Inl (ValueError (duplicate_message key'))
      else normalize_raise items (AList.update key' value result))"

text \<open>
  The first loop of the aggregating branch: \<open>result\<close> is a
  \<^verbatim>\<open>defaultdict(list)\<close>, and \<^verbatim>\<open>result[normalized_key(key)].append(value)\<close> creates
  the empty list for a key met for the first time.
\<close>

fun normalize_collect :: "(string, 'v) dict \<Rightarrow> (string, 'v list) dict \<Rightarrow> (string, 'v list) dict" where
  "normalize_collect [] result = result"
| "normalize_collect ((key, value) # items) result =
     (let key' = normalized_key key;
          values = (case map_of result key' of None \<Rightarrow> [] | Some vs \<Rightarrow> vs)
      in normalize_collect items (AList.update key' (values @ [value]) result))"

text \<open>
  \<^verbatim>\<open>_normalize_keys_impl(d, agg=agg, inplace=inplace)\<close>. The value is the content of
  the returned dict. With \<^verbatim>\<open>inplace=True\<close> that content is written back into
  \<open>d\<close> itself (after the loops, so that an error leaves \<open>d\<close> as it was) and with
  \<^verbatim>\<open>inplace=False\<close> it is a new dict; the content is the same in both cases.
  The second loop, \<^verbatim>\<open>result[key] = agg(values)\<close> for every item, replaces each
  collected list by its aggregate. The aggregator is a function that returns: one
  that raises is not modelled.
\<close>

definition normalize_keys_impl ::
  "('v list \<Rightarrow> 'v) option \<Rightarrow> (string, 'v) dict \<Rightarrow> error + (string, 'v) dict" where
  "normalize_keys_impl agg d =
     (case agg of
        None \<Rightarrow> normalize_raise d []
      | Some f \<Rightarrow> Inr (map (\<lambda>(key, values). (key, f values)) (normalize_collect d [])))"

text \<open>The builtin \<^verbatim>\<open>sum\<close>: it starts from 0 and adds from the left.\<close>

definition builtin_sum :: "real list \<Rightarrow> real" where
  "builtin_sum vs = foldl (+) 0 vs"

text \<open>
  \<^verbatim>\<open>normalize_keys(d, agg=agg, inplace=inplace)\<close>, that is with
  \<^verbatim>\<open>recursive=False\<close>: the call of \<^verbatim>\<open>_normalize_keys_impl\<close> and nothing else.
\<close>

definition normalize_keys ::
  "('v list \<Rightarrow> 'v) option \<Rightarrow> (string, 'v) dict \<Rightarrow> error + (string, 'v) dict" where
  "normalize_keys agg d = normalize_keys_impl agg d"

text \<open>
  \<^verbatim>\<open>normalize_keys(d, agg=agg, inplace=inplace, recursive=True)\<close> on a dict whose
  values are dicts. Every entry is normalized by a call
  \<^verbatim>\<open>normalize_keys(entry, agg=agg, ...)\<close> that does not pass \<open>recursive\<close> on, so
  the keys of exactly two levels are normalized; the first entry that fails ends
  the whole call. Then the keys of \<open>d\<close> itself are normalized.
  The one Python callable \<open>agg\<close> reduces lists of inner values as well as lists
  of entries; it is given here as the pair of these two instances.
  The types leave out two paths of the source: a \<open>d\<close> that is no dict is returned
  as it is, and an entry that is no dict makes the call fail with
  \<^verbatim>\<open>AttributeError\<close> (it has no \<^verbatim>\<open>items\<close>).
\<close>

fun normalize_entries ::
  "('v list \<Rightarrow> 'v) option \<Rightarrow> ('k, (string, 'v) dict) dict \<Rightarrow> error + ('k, (string, 'v) dict) dict" where
  "normalize_entries agg [] = Inr []"
| "normalize_entries agg ((key, entry) # items) =
     (case normalize_keys agg entry of
        Inl e \<Rightarrow> Inl e
      | Inr entry' \<Rightarrow>
          (case normalize_entries agg items of
             Inl e \<Rightarrow> Inl e
           | Inr items' \<Rightarrow> Inr ((key, entry') # items')))"

definition normalize_keys_recursive ::
  "(('v list \<Rightarrow> 'v) \<times> ((string, 'v) dict list \<Rightarrow> (string, 'v) dict)) option
     \<Rightarrow> (string, (string, 'v) dict) dict \<Rightarrow> error + (string, (string, 'v) dict) dict" where
  "normalize_keys_recursive agg d =
     (case normalize_entries (map_option fst agg) d of
        Inl e \<Rightarrow> Inl e
      | Inr d' \<Rightarrow> normalize_keys_impl (map_option snd agg) d')"


section \<open>src/utils.py: Balance\<close>

text \<open>
  \<^verbatim>\<open>Balance(mapping)\<close>: the constructor of \<^verbatim>\<open>Counter\<close> stores the items of the
  mapping one after the other into the new, empty counter.
\<close>

definition Balance :: "(string, real) dict \<Rightarrow> balance" where
  "Balance mapping = fold (\<lambda>(key, value). AList.update key value) mapping []"

text \<open>The right operand of \<^verbatim>\<open>Balance.__mul__\<close>, by the type tests of its branches.\<close>

datatype operand =
    CounterOperand balance
  | NumberOperand real
  | OtherOperand

definition Balance_mul :: "balance \<Rightarrow> operand \<Rightarrow> error + balance" where
  "Balance_mul self other =
     (case other of
        CounterOperand other \<Rightarrow>
          (let result = fold (\<lambda>(key, value) result.
                            AList.update key (value * get0 other key) result) self [];
               result = fold (\<lambda>key result.
                            if key \<notin> fst ` set result then AList.update key 0 result
                            else result) (map fst other) result
           in Inr result)
      | NumberOperand n \<Rightarrow> Inr (map (\<lambda>(key, value). (key, value * n)) (Balance self))
      | OtherOperand \<Rightarrow> Inl NotImplementedError)"

text \<open>
  \<^verbatim>\<open>Counter.__add__\<close> of the Python standard library (collections), which
  \<^verbatim>\<open>Balance.__add__\<close> calls through \<^verbatim>\<open>super()\<close>:
  \<^verbatim>\<open>
    result = Counter()
    for elem, count in self.items():
        newcount = count + other[elem]
        if newcount > 0:
            result[elem] = newcount
    for elem, count in other.items():
        if elem not in self and count > 0:
            result[elem] = count
    return result
  \<close>
\<close>

definition Counter_add :: "balance \<Rightarrow> balance \<Rightarrow> balance" where
  "Counter_add self other =
     (let result = fold (\<lambda>(elem, count) result.
                       let newcount = count + get0 other elem in
                       if newcount > 0 then AList.update elem newcount result else result)
                     self [];
          result = fold (\<lambda>(elem, count) result.
                       if elem \<notin> fst ` set self \<and> count > 0 then AList.update elem count result
                       else result)
                     other result
      in result)"

definition Balance_add :: "balance \<Rightarrow> balance \<Rightarrow> balance" where
  "Balance_add self other = Balance (Counter_add self other)"

text \<open>
  The same addition on a store of objects, to tell a new instance from a changed
  operand: an address is an index into the list of all counters, a new object is
  appended, and \<^verbatim>\<open>result[elem] = v\<close> writes at the address of \<open>result\<close>.
\<close>

type_synonym heap = "balance list"

definition heap_setitem :: "heap \<Rightarrow> nat \<Rightarrow> string \<Rightarrow> real \<Rightarrow> heap" where
  "heap_setitem h r key value = h[r := AList.update key value (h ! r)]"

definition Counter_add_heap :: "heap \<Rightarrow> nat \<Rightarrow> nat \<Rightarrow> nat \<times> heap" where
  "Counter_add_heap h self other =
     (let result = length h;
          h = h @ [[]];
          h = fold (\<lambda>(elem, count) h.
                 let newcount = count + get0 (h ! other) elem in
                 if newcount > 0 then heap_setitem h result elem newcount else h)
               (h ! self) h;
          h = fold (\<lambda>(elem, count) h.
                 if elem \<notin> fst ` set (h ! self) \<and> count > 0 then heap_setitem h result elem count
                 else h)
               (h ! other) h
      in (result, h))"

definition Balance_add_heap :: "heap \<Rightarrow> nat \<Rightarrow> nat \<Rightarrow> nat \<times> heap" where
  "Balance_add_heap h self other =
     (let (counter, h) = Counter_add_heap h self other
      in (length h, h @ [Balance (h ! counter)]))"

section \<open>src/exchanges/utils.py: Ticker\<close>

text \<open>\<^verbatim>\<open>for key in self: self[key][key] = 1.0\<close>\<close>

definition add_self_prices :: "ticker \<Rightarrow> ticker" where
  "add_self_prices t = map (\<lambda>(key, entry). (key, AList.update key 1 entry)) t"

text \<open>
  \<^verbatim>\<open>Ticker(raw)\<close>: the items of \<open>raw\<close> are copied, the keys are normalized in
  place with \<^verbatim>\<open>recursive=True\<close> and no aggregator, and the self prices are added.
  A \<^verbatim>\<open>ValueError\<close> of the normalizer leaves no ticker. The rows are values of
  their own: no two keys of \<open>raw\<close> share one row object.
\<close>

definition Ticker :: "ticker \<Rightarrow> error + ticker" where
  "Ticker raw =
     (case normalize_keys_recursive None raw of
        Inl e \<Rightarrow> Inl e
      | Inr t \<Rightarrow> Inr (add_self_prices t))"

text \<open>
  \<^verbatim>\<open>Balance(self[target_currency])\<close>: \<^verbatim>\<open>Ticker\<close> is a plain subclass of
  \<^verbatim>\<open>dict\<close>, so a key that is not there raises \<^verbatim>\<open>KeyError\<close>.
\<close>

definition prices :: "ticker \<Rightarrow> string \<Rightarrow> error + balance" where
  "prices t target_currency =
     (case map_of t target_currency of
        None \<Rightarrow> Inl (KeyError target_currency)
      | Some entry \<Rightarrow> Inr (Balance entry))"



section \<open>src/exchanges/spec.py: costs and order views, with the input supplied\<close>

definition buy_prices :: "string \<Rightarrow> ticker \<Rightarrow> error + balance" where
  "buy_prices from'currency t = prices t from'currency"

definition buy_cost :: "balance \<Rightarrow> string \<Rightarrow> ticker \<Rightarrow> error + balance" where
  "buy_cost balance target_currency t =
     (case buy_prices target_currency t of
        Inl e \<Rightarrow> Inl e
      | Inr row \<Rightarrow> Balance_mul balance (CounterOperand row))"





section \<open>Canonical keys\<close>

text \<open>
  A key is canonical when the normalizer leaves it as it is. The keys of a dict, and of
  a dict of dicts, that went through the normalizer are canonical.
\<close>

definition canonical :: "(string, 'v) dict \<Rightarrow> bool" where
  "canonical d = list_all (\<lambda>(k, v). normalized_key k = k) d"

definition canonical2 :: "(string, (string, 'v) dict) dict \<Rightarrow> bool" where
  "canonical2 d = list_all (\<lambda>(k, entry). normalized_key k = k \<and> canonical entry) d"

section \<open>Properties of the key normalizer\<close>

lemma upper_char_idem: "upper_char (upper_char c) = upper_char c"
proof -
  have "(of_char c :: nat) < 256" by simp
  then show ?thesis
    by (auto simp add: upper_char_def Let_def)
qed

lemma upper_idem: "upper (upper s) = upper s"
  by (simp add: upper_def upper_char_idem)

lemma alias_targets_checked:
  "list_all (\<lambda>(k, t). map_of ALIASES_FLATTENED t = Some t \<and> t \<noteq> []) ALIASES_FLATTENED"
  by code_simp

lemma alias_target_fixed:
  assumes "map_of ALIASES_FLATTENED k = Some t"
  shows "map_of ALIASES_FLATTENED t = Some t \<and> t \<noteq> []"
proof -
  have "(k, t) \<in> set ALIASES_FLATTENED"
    using assms by (rule map_of_SomeD)
  with alias_targets_checked show ?thesis
    unfolding list_all_iff by blast
qed

lemma normalized_key_idem: "normalized_key (normalized_key k) = normalized_key k"
proof (cases "map_of ALIASES_FLATTENED k")
  case (Some t)
  then have "normalized_key k = t"
    using alias_target_fixed [OF Some] by (simp add: normalized_key_def Let_def)
  moreover have "normalized_key t = t"
    using alias_target_fixed [OF Some] by (simp add: normalized_key_def Let_def)
  ultimately show ?thesis by simp
next
  case None
  show ?thesis
  proof (cases "map_of ALIASES_FLATTENED (upper k)")
    case (Some t)
    with None have "normalized_key k = t"
      using alias_target_fixed [OF Some] by (simp add: normalized_key_def Let_def)
    moreover have "normalized_key t = t"
      using alias_target_fixed [OF Some] by (simp add: normalized_key_def Let_def)
    ultimately show ?thesis by simp
  next
    case up: None
    with None have "normalized_key k = upper k"
      by (simp add: normalized_key_def Let_def)
    moreover have "normalized_key (upper k) = upper k"
      using up by (simp add: normalized_key_def Let_def upper_idem)
    ultimately show ?thesis by simp
  qed
qed

lemma update_fresh: "k \<notin> fst ` set al \<Longrightarrow> AList.update k v al = al @ [(k, v)]"
  by (induction al) auto

lemma normalize_raise_Inr:
  "normalize_raise xs acc = Inr r \<Longrightarrow>
     r = acc @ map (\<lambda>(k, v). (normalized_key k, v)) xs
     \<and> distinct (map (\<lambda>(k, v). normalized_key k) xs)
     \<and> (\<forall>(k, v) \<in> set xs. normalized_key k \<notin> fst ` set acc)"
proof (induction xs arbitrary: acc)
  case Nil
  then show ?case by simp
next
  case (Cons x xs)
  obtain k v where x: "x = (k, v)" by (cases x)
  from Cons.prems x have fresh: "normalized_key k \<notin> fst ` set acc"
    and rest: "normalize_raise xs (acc @ [(normalized_key k, v)]) = Inr r"
    by (auto simp: Let_def update_fresh split: if_splits)
  from Cons.IH [OF rest] fresh x show ?case
    by (auto simp: image_iff)
qed

lemma normalize_raise_succeeds:
  "distinct (map (\<lambda>(k, v). normalized_key k) xs) \<Longrightarrow>
   (\<forall>(k, v) \<in> set xs. normalized_key k \<notin> fst ` set acc) \<Longrightarrow>
   normalize_raise xs acc = Inr (acc @ map (\<lambda>(k, v). (normalized_key k, v)) xs)"
proof (induction xs arbitrary: acc)
  case Nil
  then show ?case by simp
next
  case (Cons x xs)
  obtain k v where x: "x = (k, v)" by (cases x)
  from Cons.prems x have fresh: "normalized_key k \<notin> fst ` set acc"
    by auto
  have "normalize_raise xs (acc @ [(normalized_key k, v)])
      = Inr ((acc @ [(normalized_key k, v)]) @ map (\<lambda>(k, v). (normalized_key k, v)) xs)"
    using Cons.prems x by (intro Cons.IH) (auto simp: image_iff)
  with fresh x show ?case
    by (simp add: Let_def update_fresh)
qed

lemma normalize_raise_Inl:
  "normalize_raise xs acc = Inl e \<Longrightarrow>
     \<exists>ys k v zs. xs = ys @ (k, v) # zs \<and> e = ValueError (duplicate_message (normalized_key k))
       \<and> normalized_key k \<in> fst ` set acc \<union> normalized_key ` fst ` set ys"
proof (induction xs arbitrary: acc)
  case Nil
  then show ?case by simp
next
  case (Cons x xs)
  obtain k v where x: "x = (k, v)" by (cases x)
  show ?case
  proof (cases "normalized_key k \<in> fst ` set acc")
    case True
    with Cons.prems x have "e = ValueError (duplicate_message (normalized_key k))"
      by (simp add: Let_def)
    with True x have "x # xs = [] @ (k, v) # xs \<and> e = ValueError (duplicate_message (normalized_key k))
       \<and> normalized_key k \<in> fst ` set acc \<union> normalized_key ` fst ` set []"
      by simp
    then show ?thesis by blast
  next
    case False
    with Cons.prems x have "normalize_raise xs (AList.update (normalized_key k) v acc) = Inl e"
      by (simp add: Let_def)
    from Cons.IH [OF this] obtain ys k' v' zs where
      split: "xs = ys @ (k', v') # zs" and e: "e = ValueError (duplicate_message (normalized_key k'))"
      and coll: "normalized_key k' \<in> fst ` set (AList.update (normalized_key k) v acc)
          \<union> normalized_key ` fst ` set ys"
      by blast
    from coll have "normalized_key k' \<in> fst ` set acc \<union> normalized_key ` fst ` set (x # ys)"
      using x by (auto simp: dom_update)
    moreover from split have "x # xs = (x # ys) @ (k', v') # zs" by simp
    ultimately show ?thesis using e by blast
  qed
qed

lemma normalize_collect_lookup:
  "map_of (normalize_collect xs acc) c =
     (let vs = map snd (filter (\<lambda>(k, v). normalized_key k = c) xs) in
      if vs = [] then map_of acc c
      else Some ((case map_of acc c of None \<Rightarrow> [] | Some old \<Rightarrow> old) @ vs))"
proof (induction xs arbitrary: acc)
  case Nil
  then show ?case by simp
next
  case (Cons x xs)
  obtain k v where x: "x = (k, v)" by (cases x)
  show ?case
    unfolding x by (simp add: Cons.IH Let_def update_conv' split: option.splits)
qed

lemma normalize_keys_impl_agg_lookup:
  "normalize_keys_impl (Some f) d = Inr r \<Longrightarrow>
   map_of r c =
     (let vs = map snd (filter (\<lambda>(k, v). normalized_key k = c) d) in
      if vs = [] then None else Some (f vs))"
  by (auto simp: normalize_keys_impl_def map_of_map normalize_collect_lookup Let_def)

lemma normalize_collect_distinct:
  "distinct (map fst acc) \<Longrightarrow> distinct (map fst (normalize_collect xs acc))"
  by (induction xs arbitrary: acc) (auto simp: Let_def distinct_update)

lemma normalize_keys_impl_agg_distinct:
  "normalize_keys_impl (Some f) d = Inr r \<Longrightarrow> distinct (map fst r)"
proof -
  assume "normalize_keys_impl (Some f) d = Inr r"
  then have "map fst r = map fst (normalize_collect d [])"
    by (auto simp: normalize_keys_impl_def case_prod_unfold)
  then show ?thesis
    by (simp add: normalize_collect_distinct)
qed

lemma filter_only:
  assumes "distinct (map fst d)" "(k, v) \<in> set d"
    and "\<forall>k' \<in> fst ` set d. k' \<noteq> k \<longrightarrow> g k' \<noteq> g k"
  shows "filter (\<lambda>(k', v'). g k' = g k) d = [(k, v)]"
  using assms
proof (induction d)
  case Nil
  then show ?case by simp
next
  case (Cons x d)
  obtain k0 v0 where x: "x = (k0, v0)" by (cases x)
  show ?case
  proof (cases "k0 = k")
    case True
    with Cons.prems x have v: "v0 = v" and notin: "k \<notin> fst ` set d"
      by (auto simp: image_iff)
    from notin Cons.prems(3) x have "filter (\<lambda>(k', v'). g k' = g k) d = []"
      by (auto simp: filter_empty_conv image_iff)
    with True v x show ?thesis by simp
  next
    case False
    with Cons.prems x have "(k, v) \<in> set d" "distinct (map fst d)"
      "\<forall>k' \<in> fst ` set d. k' \<noteq> k \<longrightarrow> g k' \<noteq> g k" "g k0 \<noteq> g k"
      by auto
    with Cons.IH x show ?thesis by simp
  qed
qed

lemma normalize_keys_impl_None_idem:
  assumes "normalize_keys_impl None d = Inr r"
  shows "normalize_keys_impl None r = Inr r"
proof -
  from assms have r: "r = map (\<lambda>(k, v). (normalized_key k, v)) d"
    and dist: "distinct (map (\<lambda>(k, v). normalized_key k) d)"
    using normalize_raise_Inr [of d "[]" r] by (simp_all add: normalize_keys_impl_def)
  have keys: "map (\<lambda>(k, v). normalized_key k) r = map (\<lambda>(k, v). normalized_key k) d"
    unfolding r by (simp add: case_prod_unfold normalized_key_idem)
  have same: "map (\<lambda>(k, v). (normalized_key k, v)) r = r"
    unfolding r by (simp add: case_prod_unfold normalized_key_idem)
  have "normalize_raise r [] = Inr ([] @ map (\<lambda>(k, v). (normalized_key k, v)) r)"
    by (rule normalize_raise_succeeds) (simp_all add: keys dist)
  then show ?thesis
    by (simp add: normalize_keys_impl_def same)
qed

lemma normalize_entries_None_idem:
  "normalize_entries None d = Inr r \<Longrightarrow> normalize_entries None r = Inr r"
proof (induction d arbitrary: r)
  case Nil
  then show ?case by simp
next
  case (Cons x d)
  obtain k e where x: "x = (k, e)" by (cases x)
  from Cons.prems x obtain e' r' where e': "normalize_keys None e = Inr e'"
    and r': "normalize_entries None d = Inr r'" and r: "r = (k, e') # r'"
    by (auto split: sum.splits)
  from e' have "normalize_keys None e' = Inr e'"
    unfolding normalize_keys_def by (rule normalize_keys_impl_None_idem)
  with Cons.IH [OF r'] r show ?case by simp
qed

lemma normalize_keys_recursive_None_idem:
  assumes "normalize_keys_recursive None d = Inr r"
  shows "normalize_keys_recursive None r = Inr r"
proof -
  from assms obtain d' where d': "normalize_entries None d = Inr d'"
    and r: "normalize_keys_impl None d' = Inr r"
    by (auto simp: normalize_keys_recursive_def split: sum.splits)
  from r have rmap: "r = map (\<lambda>(k, v). (normalized_key k, v)) d'"
    using normalize_raise_Inr [of d' "[]" r] by (simp add: normalize_keys_impl_def)
  have "normalize_entries None d' = Inr d'"
    using d' by (rule normalize_entries_None_idem)
  then have "normalize_entries None r = Inr r"
    unfolding rmap
  proof (induction d')
    case Nil
    then show ?case by simp
  next
    case (Cons x xs)
    then show ?case by (cases x) (auto split: sum.splits)
  qed
  moreover have "normalize_keys_impl None r = Inr r"
    using r by (rule normalize_keys_impl_None_idem)
  ultimately show ?thesis
    by (simp add: normalize_keys_recursive_def)
qed

lemma normalized_key_examples:
  "normalized_key ''btc'' = ''BTC''"
  "normalized_key ''BTC'' = ''BTC''"
  "normalized_key ''eth'' = ''ETH''"
  "normalized_key ''ETH'' = ''ETH''"
  "normalized_key ''usdt'' = ''USDT''"
  "normalized_key ''USDT'' = ''USDT''"
  by code_simp+

lemma normalize_raise_Inl_empty:
  assumes "normalize_raise xs [] = Inl e"
  shows "\<exists>ys k v zs. xs = ys @ (k, v) # zs
           \<and> e = ValueError (duplicate_message (normalized_key k))
           \<and> normalized_key k \<in> normalized_key ` fst ` set ys"
  using normalize_raise_Inl [OF assms] by simp

text \<open>
  Claim C1. When two distinct keys of a dict have the same normalized key, the normalizer
  without an aggregator raises the \<^verbatim>\<open>ValueError\<close> whose message quotes the
  normalized key of two colliding keys (the first collision met). With an aggregator
  \<open>f\<close> the call succeeds, and the value of that normalized key is \<open>f\<close> applied to
  the values of all keys normalized to it, in the order of the dict. With \<^verbatim>\<open>sum\<close>,
  \<^verbatim>\<open>{"btc": 1, "BTC": 2}\<close> becomes \<^verbatim>\<open>{"BTC": 3}\<close>.
\<close>

theorem duplicate_key_policy:
  assumes "well_formed d"
    and "k1 \<in> fst ` set d" and "k2 \<in> fst ` set d" and "k1 \<noteq> k2"
    and "normalized_key k1 = normalized_key k2"
  shows "(\<exists>ka kb. ka \<in> fst ` set d \<and> kb \<in> fst ` set d \<and> ka \<noteq> kb
            \<and> normalized_key ka = normalized_key kb
            \<and> normalize_keys None d = Inl (ValueError (duplicate_message (normalized_key ka))))
       \<and> (\<forall>f. \<exists>r. normalize_keys (Some f) d = Inr r \<and> well_formed r
            \<and> map_of r (normalized_key k1)
                = Some (f (map snd (filter (\<lambda>(k, v). normalized_key k = normalized_key k1) d))))
       \<and> normalize_keys (Some builtin_sum) [(''btc'', 1), (''BTC'', 2)] = Inr [(''BTC'', 3)]"
proof (intro conjI allI)
  have "\<not> distinct (map (\<lambda>(k, v). normalized_key k) d)"
  proof
    assume "distinct (map (\<lambda>(k, v). normalized_key k) d)"
    then have "inj_on (\<lambda>(k, v). normalized_key k) (set d)"
      by (simp add: distinct_map)
    moreover from assms(2,3) obtain v1 v2 where "(k1, v1) \<in> set d" "(k2, v2) \<in> set d"
      by auto
    ultimately have "(k1, v1) = (k2, v2)"
      using assms(5) by (intro inj_onD [of "\<lambda>(k, v). normalized_key k" "set d"]) simp_all
    with assms(4) show False by simp
  qed
  then have "\<forall>r. normalize_raise d [] \<noteq> Inr r"
    using normalize_raise_Inr [of d "[]"] by blast
  then obtain e where e: "normalize_raise d [] = Inl e"
    by (cases "normalize_raise d []") auto
  from normalize_raise_Inl_empty [OF e] obtain ys k v zs where
    split: "d = ys @ (k, v) # zs" and msg: "e = ValueError (duplicate_message (normalized_key k))"
    and coll: "normalized_key k \<in> normalized_key ` fst ` set ys"
    by blast
  from coll obtain k' where k': "k' \<in> fst ` set ys" and same: "normalized_key k' = normalized_key k"
    by (metis imageE)
  from assms(1) have "distinct (map fst ys @ k # map fst zs)"
    unfolding well_formed_def split by simp
  with k' have "k' \<noteq> k"
    by auto
  moreover from k' have "k' \<in> fst ` set d"
    unfolding split by auto
  moreover have "k \<in> fst ` set d"
    unfolding split by (simp add: image_iff)
  moreover have "normalize_keys None d = Inl (ValueError (duplicate_message (normalized_key k')))"
    using e msg same by (simp add: normalize_keys_def normalize_keys_impl_def)
  ultimately show "\<exists>ka kb. ka \<in> fst ` set d \<and> kb \<in> fst ` set d \<and> ka \<noteq> kb
            \<and> normalized_key ka = normalized_key kb
            \<and> normalize_keys None d = Inl (ValueError (duplicate_message (normalized_key ka)))"
    using same by blast
next
  fix f :: "'a list \<Rightarrow> 'a"
  obtain r where r: "normalize_keys_impl (Some f) d = Inr r"
    by (simp add: normalize_keys_impl_def)
  from assms(2) have "filter (\<lambda>(k, v). normalized_key k = normalized_key k1) d \<noteq> []"
    by (auto simp: filter_empty_conv)
  with normalize_keys_impl_agg_lookup [OF r, of "normalized_key k1"] r
    normalize_keys_impl_agg_distinct [OF r]
  show "\<exists>r. normalize_keys (Some f) d = Inr r \<and> well_formed r
            \<and> map_of r (normalized_key k1)
                = Some (f (map snd (filter (\<lambda>(k, v). normalized_key k = normalized_key k1) d)))"
    by (simp add: normalize_keys_def well_formed_def Let_def)
next
  show "normalize_keys (Some builtin_sum) [(''btc'', 1), (''BTC'', 2)] = Inr [(''BTC'', 3)]"
    by (simp add: normalize_keys_def normalize_keys_impl_def normalized_key_examples builtin_sum_def)
qed

theorem duplicate_key_policy_witness:
  "well_formed [(''btc'', 1 :: real), (''BTC'', 2)]
   \<and> ''btc'' \<in> fst ` set [(''btc'', 1 :: real), (''BTC'', 2)]
   \<and> ''BTC'' \<in> fst ` set [(''btc'', 1 :: real), (''BTC'', 2)]
   \<and> ''btc'' \<noteq> ''BTC''
   \<and> normalized_key ''btc'' = normalized_key ''BTC''
   \<and> normalize_keys None [(''btc'', 1 :: real), (''BTC'', 2)]
       = Inl (ValueError (duplicate_message ''BTC''))
   \<and> (\<exists>r. normalize_keys (Some builtin_sum) [(''btc'', 1), (''BTC'', 2)] = Inr r
         \<and> well_formed r \<and> map_of r ''BTC'' = Some 3)"
  using duplicate_key_policy [of "[(''btc'', 1 :: real), (''BTC'', 2)]" "''btc''" "''BTC''"]
  by (simp add: well_formed_def normalized_key_examples normalize_keys_def normalize_keys_impl_def
      builtin_sum_def)

text \<open>
  Claim C10. With an aggregator, the value stored for the normalized key of any key of
  the dict is the aggregator applied to the list of the values of all keys normalized
  to it, in the order of the dict. For a key that collides with no other key this is
  the aggregator applied to the one-element list of its value, not the value.
\<close>

theorem aggregator_on_single_value:
  assumes "well_formed d" and "(k, v) \<in> set d"
  shows "\<exists>r. normalize_keys (Some agg) d = Inr r
    \<and> map_of r (normalized_key k)
        = Some (agg (map snd (filter (\<lambda>(k', v'). normalized_key k' = normalized_key k) d)))
    \<and> ((\<forall>k' \<in> fst ` set d. k' \<noteq> k \<longrightarrow> normalized_key k' \<noteq> normalized_key k)
          \<longrightarrow> map_of r (normalized_key k) = Some (agg [v]))"
proof -
  obtain r where r: "normalize_keys_impl (Some agg) d = Inr r"
    by (simp add: normalize_keys_impl_def)
  from assms(2) have "filter (\<lambda>(k', v'). normalized_key k' = normalized_key k) d \<noteq> []"
    by (auto simp: filter_empty_conv)
  with normalize_keys_impl_agg_lookup [OF r, of "normalized_key k"]
  have all: "map_of r (normalized_key k)
        = Some (agg (map snd (filter (\<lambda>(k', v'). normalized_key k' = normalized_key k) d)))"
    by (simp add: Let_def)
  have one: "map_of r (normalized_key k) = Some (agg [v])"
    if "\<forall>k' \<in> fst ` set d. k' \<noteq> k \<longrightarrow> normalized_key k' \<noteq> normalized_key k"
  proof -
    have "filter (\<lambda>(k', v'). normalized_key k' = normalized_key k) d = [(k, v)]"
      using assms that by (intro filter_only) (simp_all add: well_formed_def)
    with all show ?thesis by simp
  qed
  from r all one show ?thesis
    unfolding normalize_keys_def by blast
qed

theorem aggregator_on_single_value_witness:
  "well_formed [(''btc'', 5 :: real), (''eth'', 7)]
   \<and> (''btc'', 5) \<in> set [(''btc'', 5 :: real), (''eth'', 7)]
   \<and> fst ` set [(''btc'', 5 :: real), (''eth'', 7)] = {''btc'', ''eth''}
   \<and> normalized_key ''eth'' \<noteq> normalized_key ''btc''
   \<and> normalize_keys (Some (\<lambda>vs. real (length vs))) [(''btc'', 5), (''eth'', 7)]
       = Inr [(''BTC'', 1), (''ETH'', 1)]
   \<and> (\<exists>r. normalize_keys (Some (\<lambda>vs. real (length vs))) [(''btc'', 5), (''eth'', 7)] = Inr r
         \<and> map_of r ''BTC'' = Some 1 \<and> map_of r ''BTC'' \<noteq> Some 5)"
proof -
  let ?d = "[(''btc'', 5 :: real), (''eth'', 7)]"
  have wf: "well_formed ?d"
    by (simp add: well_formed_def)
  have mem: "(''btc'', 5) \<in> set ?d"
    by simp
  have alone: "\<forall>k' \<in> fst ` set ?d. k' \<noteq> ''btc'' \<longrightarrow> normalized_key k' \<noteq> normalized_key ''btc''"
    by (simp add: normalized_key_examples)
  have run: "normalize_keys (Some (\<lambda>vs. real (length vs))) ?d = Inr [(''BTC'', 1), (''ETH'', 1)]"
    by (simp add: normalize_keys_def normalize_keys_impl_def normalized_key_examples)
  from aggregator_on_single_value [OF wf mem, of "\<lambda>vs. real (length vs)"] alone
  obtain r where "normalize_keys (Some (\<lambda>vs. real (length vs))) ?d = Inr r"
    and "map_of r (normalized_key ''btc'') = Some (real (length [5 :: real]))"
    by blast
  then have "\<exists>r. normalize_keys (Some (\<lambda>vs. real (length vs))) ?d = Inr r
         \<and> map_of r ''BTC'' = Some 1 \<and> map_of r ''BTC'' \<noteq> Some 5"
    by (auto simp: normalized_key_examples)
  with wf mem run show ?thesis
    by (simp add: normalized_key_examples)
qed

lemma normalize_collect_keys:
  "fst ` set (normalize_collect xs acc) = fst ` set acc \<union> normalized_key ` fst ` set xs"
proof (induction xs arbitrary: acc)
  case Nil
  then show ?case by simp
next
  case (Cons x xs)
  obtain k v where x: "x = (k, v)" by (cases x)
  have "fst ` set (normalize_collect (x # xs) acc)
      = ({normalized_key k} \<union> fst ` set acc) \<union> normalized_key ` fst ` set xs"
    unfolding x by (simp add: Let_def Cons.IH dom_update)
  then show ?case
    unfolding x by auto
qed

lemma normalize_collect_canonical:
  "distinct (map fst xs) \<Longrightarrow> canonical xs \<Longrightarrow> fst ` set xs \<inter> fst ` set acc = {} \<Longrightarrow>
   normalize_collect xs acc = acc @ map (\<lambda>(k, v). (k, [v])) xs"
proof (induction xs arbitrary: acc)
  case Nil
  then show ?case by simp
next
  case (Cons x xs)
  obtain k v where x: "x = (k, v)" by (cases x)
  from Cons.prems x have k: "normalized_key k = k" and fresh: "k \<notin> fst ` set acc"
    and rest: "distinct (map fst xs)" "canonical xs"
    and disj: "fst ` set xs \<inter> fst ` set (acc @ [(k, [v])]) = {}"
    by (auto simp: canonical_def)
  from fresh have none: "map_of acc k = None"
    by (simp add: map_of_eq_None_iff)
  show ?case
    unfolding x using Cons.IH [OF rest disj] by (simp add: k none update_fresh [OF fresh])
qed

lemma normalize_keys_agg_idem:
  assumes "\<forall>vs. f [f vs] = f vs" and "normalize_keys (Some f) d = Inr r"
  shows "normalize_keys (Some f) r = Inr r"
proof -
  define c where "c = normalize_collect d []"
  from assms(2) have r: "r = map (\<lambda>(key, values). (key, f values)) c"
    by (simp add: normalize_keys_def normalize_keys_impl_def c_def)
  have keys: "map fst r = map fst c"
    unfolding r by (simp add: case_prod_unfold)
  have "distinct (map fst c)"
    unfolding c_def by (rule normalize_collect_distinct) simp
  then have dist: "distinct (map fst r)"
    by (simp add: keys)
  have "fst ` set r = normalized_key ` fst ` set d"
    using normalize_collect_keys [of d "[]"] keys unfolding c_def by (metis empty_set image_empty set_map sup_bot_left)
  then have "\<forall>k \<in> fst ` set r. normalized_key k = k"
    by (auto simp: normalized_key_idem)
  then have can: "canonical r"
    by (force simp: canonical_def list_all_iff)
  have "normalize_collect r [] = [] @ map (\<lambda>(k, v). (k, [v])) r"
    using dist can by (intro normalize_collect_canonical) simp_all
  then have "normalize_keys (Some f) r = Inr (map (\<lambda>(k, v). (k, f [v])) r)"
    by (simp add: normalize_keys_def normalize_keys_impl_def case_prod_unfold comp_def)
  also have "map (\<lambda>(k, v). (k, f [v])) r = r"
    unfolding r using assms(1) by (simp add: case_prod_unfold comp_def)
  finally show ?thesis .
qed

lemma builtin_sum_single: "builtin_sum [builtin_sum vs] = builtin_sum vs"
  by (simp add: builtin_sum_def)

text \<open>
  Claim C6. Without an aggregator, normalization is idempotent: the normalized key of a
  normalized key is that key, and normalizing the result of a successful
  normalization, flat or with \<^verbatim>\<open>recursive=True\<close>, succeeds and changes nothing.
  With an aggregator \<open>f\<close> the second normalization applies \<open>f\<close> once more, to
  one-element lists; it changes nothing when \<open>f [f vs] = f vs\<close>, as for
  \<^verbatim>\<open>sum\<close>.
\<close>

theorem normalization_idempotent:
  "normalized_key (normalized_key k) = normalized_key k
   \<and> (normalize_keys None d = Inr r \<longrightarrow> normalize_keys None r = Inr r)
   \<and> (normalize_keys_recursive None x = Inr y \<longrightarrow> normalize_keys_recursive None y = Inr y)
   \<and> ((\<forall>vs. f [f vs] = f vs) \<and> normalize_keys (Some f) u = Inr w
        \<longrightarrow> normalize_keys (Some f) w = Inr w)"
  using normalized_key_idem normalize_keys_impl_None_idem normalize_keys_recursive_None_idem
    normalize_keys_agg_idem
  unfolding normalize_keys_def by blast

theorem normalization_idempotent_witness:
  "normalized_key (normalized_key ''btc'') = normalized_key ''btc''
   \<and> normalize_keys None [(''btc'', 1 :: real), (''eth'', 2)] = Inr [(''BTC'', 1), (''ETH'', 2)]
   \<and> normalize_keys None [(''BTC'', 1 :: real), (''ETH'', 2)] = Inr [(''BTC'', 1), (''ETH'', 2)]
   \<and> normalize_keys_recursive None [(''btc'', [(''usdt'', 9000 :: real)])]
       = Inr [(''BTC'', [(''USDT'', 9000)])]
   \<and> normalize_keys_recursive None [(''BTC'', [(''USDT'', 9000 :: real)])]
       = Inr [(''BTC'', [(''USDT'', 9000)])]
   \<and> normalize_keys (Some builtin_sum) [(''btc'', 1), (''BTC'', 2)] = Inr [(''BTC'', 3)]
   \<and> normalize_keys (Some builtin_sum) [(''BTC'', 3)] = Inr [(''BTC'', 3)]"
proof -
  have flat: "normalize_keys None [(''btc'', 1 :: real), (''eth'', 2)] = Inr [(''BTC'', 1), (''ETH'', 2)]"
    by (simp add: normalize_keys_def normalize_keys_impl_def normalized_key_examples)
  have nested: "normalize_keys_recursive None [(''btc'', [(''usdt'', 9000 :: real)])]
       = Inr [(''BTC'', [(''USDT'', 9000)])]"
    by (simp add: normalize_keys_recursive_def normalize_keys_def normalize_keys_impl_def
        normalized_key_examples)
  have summed: "normalize_keys (Some builtin_sum) [(''btc'', 1), (''BTC'', 2)] = Inr [(''BTC'', 3)]"
    by (simp add: normalize_keys_def normalize_keys_impl_def normalized_key_examples builtin_sum_def)
  have single: "\<forall>vs. builtin_sum [builtin_sum vs] = builtin_sum vs"
    by (simp add: builtin_sum_single)
  from normalization_idempotent
    [of "''btc''" "[(''btc'', 1 :: real), (''eth'', 2)]" "[(''BTC'', 1), (''ETH'', 2)]"
        "[(''btc'', [(''usdt'', 9000 :: real)])]" "[(''BTC'', [(''USDT'', 9000)])]"
        builtin_sum "[(''btc'', 1), (''BTC'', 2)]" "[(''BTC'', 3)]"]
  show ?thesis using flat nested summed single by simp
qed

section \<open>Properties of Balance\<close>

lemma fold_update_filter:
  "distinct (map fst m) \<Longrightarrow>
   (\<forall>(k, v) \<in> set m. P k v \<longrightarrow> k \<notin> fst ` set acc) \<Longrightarrow>
   fold (\<lambda>(k, v) r. if P k v then AList.update k (g k v) r else r) m acc
     = acc @ map (\<lambda>(k, v). (k, g k v)) (filter (\<lambda>(k, v). P k v) m)"
proof (induction m arbitrary: acc)
  case Nil
  then show ?case by simp
next
  case (Cons x m)
  obtain k v where x: "x = (k, v)" by (cases x)
  show ?case
  proof (cases "P k v")
    case True
    with Cons.prems x have fresh: "k \<notin> fst ` set acc" by auto
    have "fold (\<lambda>(k, v) r. if P k v then AList.update k (g k v) r else r) m (acc @ [(k, g k v)])
        = (acc @ [(k, g k v)]) @ map (\<lambda>(k, v). (k, g k v)) (filter (\<lambda>(k, v). P k v) m)"
      using Cons.prems x by (intro Cons.IH) (auto simp: image_iff)
    with True fresh x show ?thesis
      by (simp add: update_fresh)
  next
    case False
    have "fold (\<lambda>(k, v) r. if P k v then AList.update k (g k v) r else r) m acc
        = acc @ map (\<lambda>(k, v). (k, g k v)) (filter (\<lambda>(k, v). P k v) m)"
      using Cons.prems by (intro Cons.IH) auto
    with False x show ?thesis by simp
  qed
qed

lemma fold_update_all:
  assumes "distinct (map fst m)"
  shows "fold (\<lambda>(k, v). AList.update k (g k v)) m [] = map (\<lambda>(k, v). (k, g k v)) m"
proof -
  have "fold (\<lambda>(k, v) r. if True then AList.update k (g k v) r else r) m []
      = [] @ map (\<lambda>(k, v). (k, g k v)) (filter (\<lambda>(k, v). True) m)"
    using assms by (intro fold_update_filter) auto
  then show ?thesis
    by (simp add: case_prod_unfold)
qed

lemma Balance_well_formed: "well_formed m \<Longrightarrow> Balance m = m"
  using fold_update_all [of m "\<lambda>k v. v"] by (simp add: Balance_def well_formed_def)

lemma get0_present: "distinct (map fst d) \<Longrightarrow> (k, v) \<in> set d \<Longrightarrow> get0 d k = v"
  by (simp add: get0_def)

lemma get0_absent: "k \<notin> fst ` set d \<Longrightarrow> get0 d k = 0"
proof -
  assume "k \<notin> fst ` set d"
  then have "map_of d k = None"
    by (simp add: map_of_eq_None_iff)
  then show ?thesis
    by (simp add: get0_def)
qed

lemma fill_zero_keys:
  "fst ` set (fold (\<lambda>key result. if key \<notin> fst ` set result then AList.update key 0 result
       else result) ks r) = fst ` set r \<union> set ks"
  by (induction ks arbitrary: r) (auto simp: dom_update)

lemma fill_zero_distinct:
  "distinct (map fst r) \<Longrightarrow>
   distinct (map fst (fold (\<lambda>key result. if key \<notin> fst ` set result
       then AList.update key (0 :: real) result else result) ks r))"
  by (induction ks arbitrary: r) (auto simp: distinct_update)

lemma fill_zero_lookup:
  "map_of (fold (\<lambda>key result. if key \<notin> fst ` set result then AList.update key (0 :: real) result
       else result) ks r) k
   = (if k \<in> fst ` set r then map_of r k else if k \<in> set ks then Some 0 else None)"
proof (induction ks arbitrary: r)
  case Nil
  then show ?case by (simp add: map_of_eq_None_iff)
next
  case (Cons a ks)
  then show ?case
    by (auto simp: dom_update update_conv' map_of_eq_None_iff)
qed

lemma Balance_mul_Counter:
  assumes "well_formed u"
  shows "Balance_mul u (CounterOperand v) =
     Inr (fold (\<lambda>key result. if key \<notin> fst ` set result then AList.update key 0 result
            else result) (map fst v) (map (\<lambda>(k, a). (k, a * get0 v k)) u))"
  using fold_update_all [of u "\<lambda>k a. a * get0 v k"] assms
  by (simp add: Balance_mul_def well_formed_def)

text \<open>
  Claim C3. The product of two amount vectors succeeds, its keys are the keys of the one
  or the other operand, and the value of each key is the product of the two amounts, an
  absent amount read as zero; so a key with a zero amount or a zero price is in the
  result with the value zero.
\<close>

theorem multiply_elementwise:
  assumes "well_formed u"
  shows "\<exists>r. Balance_mul u (CounterOperand v) = Inr r
           \<and> well_formed r
           \<and> fst ` set r = fst ` set u \<union> fst ` set v
           \<and> (\<forall>k \<in> fst ` set u \<union> fst ` set v. map_of r k = Some (get0 u k * get0 v k))
           \<and> (\<forall>k \<in> fst ` set u \<union> fst ` set v.
                 get0 u k = 0 \<or> get0 v k = 0 \<longrightarrow> map_of r k = Some 0)"
proof -
  define r1 where "r1 = map (\<lambda>(k, a). (k, a * get0 v k)) u"
  define r where "r = fold (\<lambda>key result. if key \<notin> fst ` set result
       then AList.update key (0 :: real) result else result) (map fst v) r1"
  have keys1: "map fst r1 = map fst u"
    by (simp add: r1_def case_prod_unfold)
  then have dom1: "fst ` set r1 = fst ` set u"
    by (metis set_map)
  have dist1: "distinct (map fst r1)"
    using assms by (simp add: keys1 well_formed_def)
  have val1: "map_of r1 k = Some (get0 u k * get0 v k)" if "k \<in> fst ` set u" for k
  proof -
    from that obtain a where a: "(k, a) \<in> set u" by auto
    then have "(k, a * get0 v k) \<in> set r1"
      by (force simp: r1_def)
    with dist1 have "map_of r1 k = Some (a * get0 v k)"
      by simp
    moreover have "get0 u k = a"
      using assms a by (simp add: get0_present well_formed_def)
    ultimately show ?thesis by simp
  qed
  have res: "Balance_mul u (CounterOperand v) = Inr r"
    using assms by (simp add: Balance_mul_Counter r_def r1_def)
  have wf: "well_formed r"
    unfolding well_formed_def r_def using dist1 by (rule fill_zero_distinct)
  have dom: "fst ` set r = fst ` set u \<union> fst ` set v"
    unfolding r_def by (simp add: fill_zero_keys dom1)
  have val: "map_of r k = Some (get0 u k * get0 v k)" if "k \<in> fst ` set u \<union> fst ` set v" for k
  proof (cases "k \<in> fst ` set u")
    case True
    then show ?thesis
      unfolding r_def by (simp add: fill_zero_lookup dom1 val1)
  next
    case False
    with that have "k \<in> fst ` set v" by simp
    with False show ?thesis
      unfolding r_def by (simp add: fill_zero_lookup dom1 get0_absent)
  qed
  from res wf dom val show ?thesis
    by auto
qed

theorem multiply_elementwise_witness:
  "well_formed [(''BTC'', 2 :: real), (''ETH'', 0)]
   \<and> Balance_mul [(''BTC'', 2), (''ETH'', 0)] (CounterOperand [(''BTC'', 0), (''USDT'', 9000)])
       = Inr [(''BTC'', 0), (''ETH'', 0), (''USDT'', 0)]
   \<and> (\<exists>r. Balance_mul [(''BTC'', 2), (''ETH'', 0)] (CounterOperand [(''BTC'', 0), (''USDT'', 9000)])
           = Inr r
         \<and> fst ` set r = {''BTC'', ''ETH'', ''USDT''} \<and> map_of r ''BTC'' = Some 0)"
proof -
  have run: "Balance_mul [(''BTC'', 2), (''ETH'', 0)] (CounterOperand [(''BTC'', 0), (''USDT'', 9000)])
       = Inr [(''BTC'', 0), (''ETH'', 0), (''USDT'', 0)]"
    by (simp add: Balance_mul_def get0_def)
  from multiply_elementwise [of "[(''BTC'', 2), (''ETH'', 0)]" "[(''BTC'', 0), (''USDT'', 9000)]"]
  show ?thesis
    using run by (auto simp: well_formed_def)
qed

text \<open>
  Claim C4, as stated, fails: \<^verbatim>\<open>{"BTC": 2}\<close> times the price row
  \<^verbatim>\<open>{"BTC": 1.0, "USDT": 9000}\<close> is not \<^verbatim>\<open>{"BTC": 2, "USDT": 18000}\<close>,
  in whatever order the two items are listed.
\<close>

theorem multiply_scenario_counterexample:
  "Balance_mul [(''BTC'', 2)] (CounterOperand [(''BTC'', 1), (''USDT'', 9000)])
     \<noteq> Inr [(''BTC'', 2), (''USDT'', 18000)]
   \<and> Balance_mul [(''BTC'', 2)] (CounterOperand [(''BTC'', 1), (''USDT'', 9000)])
     \<noteq> Inr [(''USDT'', 18000), (''BTC'', 2)]"
  by (simp add: Balance_mul_def get0_def)

text \<open>
  Claim C4, amended. \<^verbatim>\<open>{"BTC": 2}\<close> times the price row
  \<^verbatim>\<open>{"BTC": 1.0, "USDT": 9000}\<close> is \<^verbatim>\<open>{"BTC": 2, "USDT": 0}\<close>: the vector holds
  no USDT, and the absent amount counts as zero. \<^verbatim>\<open>buy_cost\<close> gives the same on
  the ticker built from \<^verbatim>\<open>{"btc": {"usdt": 9000}}\<close>, whose row of BTC is that
  price row.
\<close>

theorem multiply_scenario:
  "Balance_mul [(''BTC'', 2)] (CounterOperand [(''BTC'', 1), (''USDT'', 9000)])
     = Inr [(''BTC'', 2), (''USDT'', 0)]
   \<and> Ticker [(''btc'', [(''usdt'', 9000)])] = Inr [(''BTC'', [(''USDT'', 9000), (''BTC'', 1)])]
   \<and> buy_cost [(''BTC'', 2)] ''BTC'' [(''BTC'', [(''USDT'', 9000), (''BTC'', 1)])]
     = Inr [(''BTC'', 2), (''USDT'', 0)]"
proof -
  have "Ticker [(''btc'', [(''usdt'', 9000)])] = Inr [(''BTC'', [(''USDT'', 9000), (''BTC'', 1)])]"
    by (simp add: Ticker_def normalize_keys_recursive_def normalize_keys_def normalize_keys_impl_def
        normalized_key_examples add_self_prices_def)
  moreover have "Balance_mul [(''BTC'', 2)] (CounterOperand [(''BTC'', 1), (''USDT'', 9000)])
     = Inr [(''BTC'', 2), (''USDT'', 0)]"
    by (simp add: Balance_mul_def get0_def)
  moreover have "buy_cost [(''BTC'', 2)] ''BTC'' [(''BTC'', [(''USDT'', 9000), (''BTC'', 1)])]
     = Inr [(''BTC'', 2), (''USDT'', 0)]"
    by (simp add: buy_cost_def buy_prices_def prices_def Balance_def Balance_mul_def get0_def)
  ultimately show ?thesis by simp
qed

lemma map_of_map_filter:
  "distinct (map fst u) \<Longrightarrow>
   map_of (map (\<lambda>(k, c). (k, g k c)) (filter (\<lambda>(k, c). P k c) u)) k
     = (case map_of u k of None \<Rightarrow> None | Some c \<Rightarrow> if P k c then Some (g k c) else None)"
proof (induction u)
  case Nil
  then show ?case by simp
next
  case (Cons x u)
  obtain k0 c0 where x: "x = (k0, c0)" by (cases x)
  from Cons.prems x have "map_of u k0 = None"
    by (simp add: map_of_eq_None_iff)
  with Cons x show ?case
    by (auto split: option.splits)
qed

lemma map_of_filter_distinct:
  assumes "distinct (map fst u)"
  shows "map_of (filter (\<lambda>(k, c). P k c) u) k
     = (case map_of u k of None \<Rightarrow> None | Some c \<Rightarrow> if P k c then Some c else None)"
  using map_of_map_filter [OF assms, of "\<lambda>k c. c" P k] by simp

lemma Counter_add_eq:
  assumes "well_formed u" and "well_formed v"
  shows "Counter_add u v =
     map (\<lambda>(k, c). (k, c + get0 v k)) (filter (\<lambda>(k, c). c + get0 v k > 0) u)
     @ filter (\<lambda>(k, c). k \<notin> fst ` set u \<and> c > 0) v"
proof -
  define r1 where "r1 = map (\<lambda>(k, c). (k, c + get0 v k)) (filter (\<lambda>(k, c). c + get0 v k > 0) u)"
  have "fold (\<lambda>(k, c) r. if c + get0 v k > 0 then AList.update k (c + get0 v k) r else r) u []
      = [] @ r1"
    unfolding r1_def using assms(1)
    by (intro fold_update_filter) (simp_all add: well_formed_def)
  then have first: "fold (\<lambda>(elem, count) result.
       let newcount = count + get0 v elem in
       if newcount > 0 then AList.update elem newcount result else result) u [] = r1"
    by (simp add: Let_def)
  have "fst ` set r1 \<subseteq> fst ` set u"
    by (force simp: r1_def)
  then have "\<forall>(k, c) \<in> set v. k \<notin> fst ` set u \<and> c > 0 \<longrightarrow> k \<notin> fst ` set r1"
    by auto
  with assms(2) have second: "fold (\<lambda>(k, c) r. if k \<notin> fst ` set u \<and> c > 0
       then AList.update k c r else r) v r1
      = r1 @ map (\<lambda>(k, c). (k, c)) (filter (\<lambda>(k, c). k \<notin> fst ` set u \<and> c > 0) v)"
    by (intro fold_update_filter) (simp_all add: well_formed_def)
  have "Counter_add u v = fold (\<lambda>(k, c) r. if k \<notin> fst ` set u \<and> c > 0
       then AList.update k c r else r) v r1"
    using first by (simp add: Counter_add_def Let_def)
  with second show ?thesis
    by (simp add: r1_def)
qed

lemma Counter_add_lookup:
  assumes "well_formed u" and "well_formed v"
  shows "map_of (Counter_add u v) k =
     (if k \<in> fst ` set u \<union> fst ` set v \<and> get0 u k + get0 v k > 0
      then Some (get0 u k + get0 v k) else None)"
proof (cases "map_of u k")
  case None
  then have notin: "k \<notin> fst ` set u"
    by (simp add: map_of_eq_None_iff)
  then have u0: "get0 u k = 0"
    by (rule get0_absent)
  show ?thesis
  proof (cases "map_of v k")
    case vNone: None
    then have "k \<notin> fst ` set v"
      by (simp add: map_of_eq_None_iff)
    with notin None vNone show ?thesis
      using assms by (simp add: Counter_add_eq map_of_map_filter map_of_filter_distinct well_formed_def map_add_def)
  next
    case (Some c)
    then have "k \<in> fst ` set v"
      by (metis map_of_eq_None_iff option.distinct(1))
    with notin None Some u0 show ?thesis
      using assms by (simp add: Counter_add_eq map_of_map_filter map_of_filter_distinct well_formed_def map_add_def get0_def)
  qed
next
  case (Some c)
  then have "k \<in> fst ` set u"
    by (metis map_of_eq_None_iff option.distinct(1))
  with Some show ?thesis
    using assms by (simp add: Counter_add_eq map_of_map_filter map_of_filter_distinct well_formed_def
        map_add_def get0_def split: option.splits)
qed

lemma Counter_add_well_formed:
  assumes "well_formed u" and "well_formed v"
  shows "well_formed (Counter_add u v)"
proof -
  have "distinct (map fst (filter (\<lambda>(k, c). c + get0 v k > 0) u))"
    using assms(1) by (simp add: well_formed_def distinct_map_filter)
  moreover have "distinct (map fst (filter (\<lambda>(k, c). k \<notin> fst ` set u \<and> c > 0) v))"
    using assms(2) by (simp add: well_formed_def distinct_map_filter)
  moreover have "fst ` set (filter (\<lambda>(k, c). c + get0 v k > 0) u)
      \<inter> fst ` set (filter (\<lambda>(k, c). k \<notin> fst ` set u \<and> c > 0) v) = {}"
    by (auto simp: image_iff)
  ultimately show ?thesis
    using assms unfolding well_formed_def
    by (simp add: Counter_add_eq well_formed_def case_prod_unfold comp_def)
qed

lemma Counter_add_keys:
  assumes "well_formed u" and "well_formed v"
  shows "fst ` set (Counter_add u v)
     = {k \<in> fst ` set u \<union> fst ` set v. get0 u k + get0 v k > 0}"
proof -
  have "fst ` set (Counter_add u v) = dom (map_of (Counter_add u v))"
    by (simp add: dom_map_of_conv_image_fst)
  also have "\<dots> = {k \<in> fst ` set u \<union> fst ` set v. get0 u k + get0 v k > 0}"
    by (auto simp: Counter_add_lookup [OF assms] dom_def)
  finally show ?thesis .
qed

lemma heap_first_loop:
  "other < length h \<Longrightarrow>
   fold (\<lambda>(elem, count) h'.
           let newcount = count + get0 (h' ! other) elem in
           if newcount > 0 then heap_setitem h' (length h) elem newcount else h')
     xs (h @ [res])
   = h @ [fold (\<lambda>(elem, count) result.
                  let newcount = count + get0 (h ! other) elem in
                  if newcount > 0 then AList.update elem newcount result else result)
            xs res]"
  by (induction xs arbitrary: res) (auto simp: Let_def heap_setitem_def nth_append)

lemma heap_second_loop:
  "self < length h \<Longrightarrow>
   fold (\<lambda>(elem, count) h'.
           if elem \<notin> fst ` set (h' ! self) \<and> count > 0
           then heap_setitem h' (length h) elem count else h')
     xs (h @ [res])
   = h @ [fold (\<lambda>(elem, count) result.
                  if elem \<notin> fst ` set (h ! self) \<and> count > 0
                  then AList.update elem count result else result)
            xs res]"
  by (induction xs arbitrary: res) (auto simp: heap_setitem_def nth_append)

lemma Counter_add_heap_eq:
  assumes "self < length h" and "other < length h"
  shows "Counter_add_heap h self other = (length h, h @ [Counter_add (h ! self) (h ! other)])"
proof -
  have self: "(h @ [[]]) ! self = h ! self" and other: "(h @ [[]]) ! other = h ! other"
    using assms by (simp_all add: nth_append)
  define r1 where "r1 = fold (\<lambda>(elem, count) result.
                  let newcount = count + get0 (h ! other) elem in
                  if newcount > 0 then AList.update elem newcount result else result)
            (h ! self) []"
  have self1: "(h @ [r1]) ! self = h ! self" and other1: "(h @ [r1]) ! other = h ! other"
    using assms by (simp_all add: nth_append)
  show ?thesis
    unfolding Counter_add_heap_def Let_def self
    unfolding heap_first_loop [OF assms(2), unfolded Let_def] r1_def [unfolded Let_def, symmetric]
    unfolding other1 heap_second_loop [OF assms(1)]
    by (simp add: Counter_add_def Let_def r1_def)
qed

lemma Balance_add_heap_eq:
  assumes "self < length h" and "other < length h"
    and "well_formed (h ! self)" and "well_formed (h ! other)"
  shows "Balance_add_heap h self other
     = (Suc (length h), h @ [Counter_add (h ! self) (h ! other), Balance_add (h ! self) (h ! other)])"
  by (simp add: Balance_add_heap_def Counter_add_heap_eq [OF assms(1,2)] Balance_add_def)

lemma Balance_add_eq:
  assumes "well_formed u" and "well_formed v"
  shows "Balance_add u v = Counter_add u v"
  unfolding Balance_add_def
  by (rule Balance_well_formed) (rule Counter_add_well_formed [OF assms])

text \<open>
  Claim C9, amended. The sum of two amount vectors is a new object, and every object
  that was in the store, the two operands among them, is left as it was. The keys of
  the sum are those keys of the one or the other operand whose two amounts (an absent
  one read as zero) add up to more than zero, and the value of each is that sum.
\<close>

theorem add_positive_sums:
  assumes "self < length h" and "other < length h"
    and "well_formed (h ! self)" and "well_formed (h ! other)"
  shows "\<exists>r h'. Balance_add_heap h self other = (r, h')
           \<and> length h \<le> r \<and> r < length h'
           \<and> (\<forall>a < length h. h' ! a = h ! a)
           \<and> h' ! r = Balance_add (h ! self) (h ! other)
           \<and> well_formed (h' ! r)
           \<and> fst ` set (h' ! r)
               = {k \<in> fst ` set (h ! self) \<union> fst ` set (h ! other).
                    get0 (h ! self) k + get0 (h ! other) k > 0}
           \<and> (\<forall>k \<in> fst ` set (h' ! r).
                 map_of (h' ! r) k = Some (get0 (h ! self) k + get0 (h ! other) k))"
proof -
  define c where "c = Counter_add (h ! self) (h ! other)"
  define h' where "h' = h @ [c, c]"
  have sum: "Balance_add (h ! self) (h ! other) = c"
    unfolding c_def using assms(3,4) by (rule Balance_add_eq)
  have run: "Balance_add_heap h self other = (Suc (length h), h')"
    using Balance_add_heap_eq [OF assms] by (simp add: h'_def c_def sum [unfolded c_def])
  have new: "h' ! Suc (length h) = c"
    by (simp add: h'_def nth_append)
  have old: "\<forall>a < length h. h' ! a = h ! a"
    by (simp add: h'_def nth_append)
  have wf: "well_formed c"
    unfolding c_def using assms(3,4) by (rule Counter_add_well_formed)
  have keys: "fst ` set c = {k \<in> fst ` set (h ! self) \<union> fst ` set (h ! other).
                    get0 (h ! self) k + get0 (h ! other) k > 0}"
    unfolding c_def using assms(3,4) by (rule Counter_add_keys)
  have vals: "\<forall>k \<in> fst ` set c. map_of c k = Some (get0 (h ! self) k + get0 (h ! other) k)"
    unfolding keys by (simp add: c_def Counter_add_lookup [OF assms(3,4)])
  have len: "length h \<le> Suc (length h)" "Suc (length h) < length h'"
    by (simp_all add: h'_def)
  show ?thesis
    using run len old wf keys vals unfolding sum new [symmetric]
    by (intro exI [of _ "Suc (length h)"] exI [of _ h']) (simp add: new sum)
qed

theorem add_positive_sums_witness:
  "(0 :: nat) < length [[(''BTC'', 1 :: real), (''ETH'', 0)], [(''BTC'', 2), (''USDT'', 5)]]
   \<and> (1 :: nat) < length [[(''BTC'', 1 :: real), (''ETH'', 0)], [(''BTC'', 2), (''USDT'', 5)]]
   \<and> well_formed ([[(''BTC'', 1 :: real), (''ETH'', 0)], [(''BTC'', 2), (''USDT'', 5)]] ! 0)
   \<and> well_formed ([[(''BTC'', 1 :: real), (''ETH'', 0)], [(''BTC'', 2), (''USDT'', 5)]] ! 1)
   \<and> Balance_add [(''BTC'', 1), (''ETH'', 0)] [(''BTC'', 2), (''USDT'', 5)]
       = [(''BTC'', 3), (''USDT'', 5)]
   \<and> (\<exists>r h'. Balance_add_heap [[(''BTC'', 1), (''ETH'', 0)], [(''BTC'', 2), (''USDT'', 5)]] 0 1 = (r, h')
         \<and> 2 \<le> r \<and> h' ! r = [(''BTC'', 3), (''USDT'', 5)]
         \<and> h' ! 0 = [(''BTC'', 1), (''ETH'', 0)] \<and> h' ! 1 = [(''BTC'', 2), (''USDT'', 5)])"
proof -
  have sum: "Balance_add [(''BTC'', 1), (''ETH'', 0)] [(''BTC'', 2), (''USDT'', 5)]
       = [(''BTC'', 3), (''USDT'', 5)]"
    by (simp add: Balance_add_def Counter_add_def Balance_def get0_def)
  from add_positive_sums
    [of 0 "[[(''BTC'', 1 :: real), (''ETH'', 0)], [(''BTC'', 2), (''USDT'', 5)]]" 1]
  show ?thesis
    using sum by (auto simp: well_formed_def)
qed

text \<open>
  Claim C9, as stated, fails: the keys of a sum are not always the keys of the one or
  the other operand. A key whose sum is zero or negative is left out.
\<close>

theorem add_union_counterexample:
  "Balance_add [(''BTC'', 0)] [(''USDT'', 5)] = [(''USDT'', 5)]
   \<and> fst ` set (Balance_add [(''BTC'', 0)] [(''USDT'', 5)])
       \<noteq> fst ` set [(''BTC'', 0 :: real)] \<union> fst ` set [(''USDT'', 5 :: real)]
   \<and> Balance_add [(''BTC'', - 3)] [(''BTC'', 1)] = []"
  by (simp add: Balance_add_def Counter_add_def Balance_def get0_def)

section \<open>Properties of \<open>inverted\<close>\<close>





lemma list_all_update:
  "list_all P al \<Longrightarrow> P (k, v) \<Longrightarrow> list_all P (AList.update k v al)"
  by (induction al) auto





section \<open>Properties of Ticker\<close>

lemma normalize_keys_None_result:
  assumes "normalize_keys None d = Inr r"
  shows "r = map (\<lambda>(k, v). (normalized_key k, v)) d"
    and "distinct (map (\<lambda>(k, v). normalized_key k) d)"
  using normalize_raise_Inr [of d "[]" r] assms
  by (simp_all add: normalize_keys_def normalize_keys_impl_def)

lemma normalize_keys_None_props:
  assumes "normalize_keys None d = Inr r"
  shows "well_formed r \<and> canonical r \<and> fst ` set r = normalized_key ` fst ` set d"
proof -
  note r = normalize_keys_None_result [OF assms]
  have "map fst r = map (\<lambda>(k, v). normalized_key k) d"
    unfolding r(1) by (simp add: case_prod_unfold)
  with r(2) have "well_formed r"
    by (simp add: well_formed_def)
  moreover have "canonical r"
    unfolding r(1) canonical_def by (simp add: list_all_iff case_prod_unfold normalized_key_idem)
  moreover have "fst ` set r = normalized_key ` fst ` set d"
    unfolding r(1) by (force simp: image_iff)
  ultimately show ?thesis by simp
qed


lemma normalize_entries_props:
  "normalize_entries None d = Inr d' \<Longrightarrow>
   map fst d' = map fst d \<and> list_all (\<lambda>(k, e). well_formed e \<and> canonical e) d'"
proof (induction d arbitrary: d')
  case Nil
  then show ?case by simp
next
  case (Cons x d)
  obtain k e where x: "x = (k, e)" by (cases x)
  from Cons.prems x obtain e' r' where e': "normalize_keys None e = Inr e'"
    and r': "normalize_entries None d = Inr r'" and d': "d' = (k, e') # r'"
    by (auto split: sum.splits)
  from Cons.IH [OF r'] normalize_keys_None_props [OF e'] x d' show ?case
    by simp
qed


lemma normalize_keys_recursive_props:
  assumes "normalize_keys_recursive None d = Inr r"
  shows "well_formed2 r \<and> canonical2 r \<and> fst ` set r = normalized_key ` fst ` set d"
proof -
  from assms obtain d' where d': "normalize_entries None d = Inr d'"
    and r: "normalize_keys None d' = Inr r"
    by (auto simp: normalize_keys_recursive_def normalize_keys_def split: sum.splits)
  note entries = normalize_entries_props [OF d']
  note outer = normalize_keys_None_props [OF r]
  note rmap = normalize_keys_None_result(1) [OF r]
  have rows: "list_all (\<lambda>(k, e). well_formed e \<and> canonical e) r"
    using entries unfolding rmap by (simp add: list_all_iff case_prod_unfold)
  have "fst ` set d' = fst ` set d"
    using entries by (metis set_map)
  with outer have "fst ` set r = normalized_key ` fst ` set d"
    by simp
  moreover have "well_formed2 r"
    using outer rows by (simp add: well_formed2_def list_all_iff case_prod_unfold)
  moreover have "canonical2 r"
    using outer rows by (simp add: canonical2_def canonical_def list_all_iff case_prod_unfold)
  ultimately show ?thesis by simp
qed


lemma add_self_prices_keys: "map fst (add_self_prices t) = map fst t"
  by (simp add: add_self_prices_def case_prod_unfold)

lemma add_self_prices_lookup:
  "map_of (add_self_prices t) a = map_option (AList.update a 1) (map_of t a)"
  by (induction t) (auto simp: add_self_prices_def)

lemma add_self_prices_edge:
  "edge (add_self_prices t) a b
     = (case map_of t a of None \<Rightarrow> None | Some e \<Rightarrow> if b = a then Some 1 else map_of e b)"
  by (simp add: edge_def add_self_prices_lookup update_conv' split: option.splits)

lemma add_self_prices_rows:
  assumes "(k, row) \<in> set (add_self_prices t)"
  shows "\<exists>entry. (k, entry) \<in> set t \<and> row = AList.update k 1 entry"
  using assms by (auto simp: add_self_prices_def)

lemma add_self_prices_props:
  assumes "well_formed2 t" and "canonical2 t"
  shows "well_formed2 (add_self_prices t) \<and> canonical2 (add_self_prices t)
    \<and> (\<forall>c \<in> fst ` set (add_self_prices t). edge (add_self_prices t) c c = Some 1)"
proof -
  have "distinct (map fst (add_self_prices t))"
    unfolding add_self_prices_keys using assms(1) by (simp add: well_formed2_def well_formed_def)
  moreover have "distinct (map fst row)" if "(k, row) \<in> set (add_self_prices t)" for k row
  proof -
    from add_self_prices_rows [OF that] obtain entry
      where "(k, entry) \<in> set t" and row: "row = AList.update k 1 entry" by blast
    with assms(1) have "distinct (map fst entry)"
      by (auto simp: well_formed2_def well_formed_def list_all_iff)
    then show ?thesis
      unfolding row by (rule distinct_update)
  qed
  ultimately have "well_formed2 (add_self_prices t)"
    by (auto simp: well_formed2_def well_formed_def list_all_iff)
  moreover have "normalized_key k = k \<and> canonical row" if "(k, row) \<in> set (add_self_prices t)" for k row
  proof -
    from add_self_prices_rows [OF that] obtain entry
      where "(k, entry) \<in> set t" and row: "row = AList.update k 1 entry" by blast
    with assms(2) have k: "normalized_key k = k" and entry: "canonical entry"
      by (auto simp: canonical2_def list_all_iff)
    from entry k have "canonical row"
      unfolding row canonical_def by (intro list_all_update) simp_all
    with k show ?thesis by simp
  qed
  then have "canonical2 (add_self_prices t)"
    by (auto simp: canonical2_def list_all_iff)
  moreover have "edge (add_self_prices t) c c = Some 1" if "c \<in> fst ` set (add_self_prices t)" for c
  proof -
    from that have "c \<in> fst ` set t"
      using add_self_prices_keys [of t] by (metis set_map)
    then obtain e where "map_of t c = Some e"
      by (metis map_of_eq_None_iff not_Some_eq)
    then show ?thesis
      by (simp add: add_self_prices_edge)
  qed
  ultimately show ?thesis by blast
qed

lemma Ticker_props:
  assumes "Ticker raw = Inr t"
  shows "well_formed2 t" and "canonical2 t" and "fst ` set t = normalized_key ` fst ` set raw"
    and "\<forall>c \<in> fst ` set t. edge t c c = Some 1"
proof -
  from assms obtain d where d: "normalize_keys_recursive None raw = Inr d"
    and t: "t = add_self_prices d"
    by (auto simp: Ticker_def split: sum.splits)
  note nd = normalize_keys_recursive_props [OF d]
  from nd have "well_formed2 d" and "canonical2 d" by simp_all
  note sp = add_self_prices_props [OF this]
  have keys: "fst ` set t = fst ` set d"
    unfolding t using add_self_prices_keys [of d] by (metis set_map)
  from sp show "well_formed2 t" and "canonical2 t"
    and "\<forall>c \<in> fst ` set t. edge t c c = Some 1"
    unfolding t by simp_all
  from nd keys show "fst ` set t = normalized_key ` fst ` set raw"
    by simp
qed





text \<open>
  Claim C2. The sources of a ticker built from a raw mapping are the normalized keys of
  the raw mapping, and for each of them \<^verbatim>\<open>prices\<close> returns a row that holds the
  price 1 for the currency itself.
\<close>

theorem price_graph_self_edges:
  assumes "Ticker raw = Inr t"
  shows "fst ` set t = normalized_key ` fst ` set raw
    \<and> (\<forall>c \<in> fst ` set t. \<exists>row. prices t c = Inr row \<and> map_of row c = Some 1)"
proof -
  note props = Ticker_props [OF assms]
  have "\<exists>row. prices t c = Inr row \<and> map_of row c = Some 1" if "c \<in> fst ` set t" for c
  proof -
    from that obtain entry where entry: "map_of t c = Some entry"
      by (metis map_of_eq_None_iff not_Some_eq)
    then have "(c, entry) \<in> set t"
      by (rule map_of_SomeD)
    with props(1) have "well_formed entry"
      by (auto simp: well_formed2_def list_all_iff)
    then have "prices t c = Inr entry"
      by (simp add: prices_def entry Balance_well_formed)
    moreover from props(4) that have "edge t c c = Some 1"
      by blast
    with entry have "map_of entry c = Some 1"
      by (simp add: edge_def)
    ultimately show ?thesis by blast
  qed
  with props(3) show ?thesis by blast
qed

theorem price_graph_self_edges_witness:
  "Ticker [(''btc'', [(''usdt'', 9000)]), (''usdt'', [(''btc'', 0)])]
     = Inr [(''BTC'', [(''USDT'', 9000), (''BTC'', 1)]), (''USDT'', [(''BTC'', 0), (''USDT'', 1)])]
   \<and> prices [(''BTC'', [(''USDT'', 9000), (''BTC'', 1)]), (''USDT'', [(''BTC'', 0), (''USDT'', 1)])] ''BTC''
       = Inr [(''USDT'', 9000), (''BTC'', 1)]
   \<and> prices [(''BTC'', [(''USDT'', 9000), (''BTC'', 1)]), (''USDT'', [(''BTC'', 0), (''USDT'', 1)])] ''USDT''
       = Inr [(''BTC'', 0), (''USDT'', 1)]"
proof -
  have run: "Ticker [(''btc'', [(''usdt'', 9000)]), (''usdt'', [(''btc'', 0)])]
     = Inr [(''BTC'', [(''USDT'', 9000), (''BTC'', 1)]), (''USDT'', [(''BTC'', 0), (''USDT'', 1)])]"
    by (simp add: Ticker_def normalize_keys_recursive_def normalize_keys_def normalize_keys_impl_def
        normalized_key_examples add_self_prices_def Let_def)
  from price_graph_self_edges [OF run] show ?thesis
    using run by (simp add: prices_def Balance_def)
qed

text \<open>
  Claim C7, as stated, fails: in the ticker built from \<^verbatim>\<open>{"btc": {"usdt": 9000}}\<close>
  USDT is no source, and \<^verbatim>\<open>prices("USDT")\<close> raises \<^verbatim>\<open>KeyError\<close>; it does not
  return the empty vector.
\<close>

theorem prices_missing_currency_counterexample:
  "Ticker [(''btc'', [(''usdt'', 9000)])] = Inr [(''BTC'', [(''USDT'', 9000), (''BTC'', 1)])]
   \<and> ''USDT'' \<notin> fst ` set [(''BTC'', [(''USDT'', 9000 :: real), (''BTC'', 1)])]
   \<and> prices [(''BTC'', [(''USDT'', 9000), (''BTC'', 1)])] ''USDT'' = Inl (KeyError ''USDT'')
   \<and> prices [(''BTC'', [(''USDT'', 9000), (''BTC'', 1)])] ''USDT'' \<noteq> Inr []"
  by (simp add: Ticker_def normalize_keys_recursive_def normalize_keys_def normalize_keys_impl_def
      normalized_key_examples add_self_prices_def prices_def Let_def)

text \<open>
  Claim C7, amended. On a ticker built from a raw mapping, \<^verbatim>\<open>prices(c)\<close> raises
  \<^verbatim>\<open>KeyError(c)\<close> for a currency that is no source, and returns the row of the
  currency when it is one.
\<close>

theorem prices_missing_currency:
  assumes "Ticker raw = Inr t"
  shows "(c \<notin> fst ` set t \<longrightarrow> prices t c = Inl (KeyError c))
    \<and> (c \<in> fst ` set t \<longrightarrow> (\<exists>row. map_of t c = Some row \<and> prices t c = Inr row))"
proof (intro conjI impI)
  assume "c \<notin> fst ` set t"
  then have "map_of t c = None"
    by (simp add: map_of_eq_None_iff)
  then show "prices t c = Inl (KeyError c)"
    by (simp add: prices_def)
next
  assume "c \<in> fst ` set t"
  then obtain entry where entry: "map_of t c = Some entry"
    by (metis map_of_eq_None_iff not_Some_eq)
  then have "(c, entry) \<in> set t"
    by (rule map_of_SomeD)
  with Ticker_props(1) [OF assms] have "well_formed entry"
    by (auto simp: well_formed2_def list_all_iff)
  with entry show "\<exists>row. map_of t c = Some row \<and> prices t c = Inr row"
    by (simp add: prices_def Balance_well_formed)
qed

theorem prices_missing_currency_witness:
  "Ticker [(''btc'', [(''usdt'', 9000)])] = Inr [(''BTC'', [(''USDT'', 9000), (''BTC'', 1)])]
   \<and> ''ETH'' \<notin> fst ` set [(''BTC'', [(''USDT'', 9000 :: real), (''BTC'', 1)])]
   \<and> prices [(''BTC'', [(''USDT'', 9000), (''BTC'', 1)])] ''ETH'' = Inl (KeyError ''ETH'')
   \<and> ''BTC'' \<in> fst ` set [(''BTC'', [(''USDT'', 9000 :: real), (''BTC'', 1)])]
   \<and> prices [(''BTC'', [(''USDT'', 9000), (''BTC'', 1)])] ''BTC'' = Inr [(''USDT'', 9000), (''BTC'', 1)]"
proof -
  have run: "Ticker [(''btc'', [(''usdt'', 9000)])] = Inr [(''BTC'', [(''USDT'', 9000), (''BTC'', 1)])]"
    by (simp add: Ticker_def normalize_keys_recursive_def normalize_keys_def normalize_keys_impl_def
        normalized_key_examples add_self_prices_def Let_def)
  from prices_missing_currency [OF run, of "''ETH''"] prices_missing_currency [OF run, of "''BTC''"]
  show ?thesis
    using run by simp
qed



section \<open>Properties of the order views\<close>






end
